theory Spec2Isabelle
  imports Main
begin

section \<open>Instants\<close>

text \<open>
  A \<^verbatim>\<open>time.Time\<close> is modelled by the integer count of clock ticks since the zero
  instant (\<^verbatim>\<open>time.Time{}\<close>); instants before it are negative. \<^verbatim>\<open>IsZero\<close>,
  \<^verbatim>\<open>Before\<close> and \<^verbatim>\<open>After\<close> are the methods of that name. The package reads the
  clock through the variable \<^verbatim>\<open>timeNow\<close>; every function below that reads it takes
  the reading as an argument: one instant \<open>now\<close> where the source reads the clock once,
  a sequence \<open>clk\<close> (\<open>clk i\<close> is the \<open>i\<close>-th reading) where it reads it once per
  loop test.
\<close>

type_synonym time = int

definition IsZero :: "time \<Rightarrow> bool" where
  "IsZero t = (t = 0)"

definition Before :: "time \<Rightarrow> time \<Rightarrow> bool" where
  "Before t u = (t < u)"

definition After :: "time \<Rightarrow> time \<Rightarrow> bool" where
  "After t u = (u < t)"

section \<open>Items, the chain and the cache\<close>

text \<open>
  \<^verbatim>\<open>item[T]\<close> is a datum with its expiry instant. \<^verbatim>\<open>keyed[K]\<close> is an
  \<^verbatim>\<open>item[K]\<close> with the pointer to the next record; the chain, a nil-terminated
  singly linked list that only the cleaner goroutine reaches, is the list of its
  records from the head.
\<close>

record 'a item =
  data :: 'a
  expires :: time

definition HasExpired :: "time \<Rightarrow> 'a item \<Rightarrow> bool" where
  "HasExpired now c = (\<not> IsZero (expires c) \<and> Before (expires c) now)"

text \<open>
  The conjunction short-circuits: \<^verbatim>\<open>HasExpired\<close> reads the clock only for an item
  with a non-zero expiry. \<open>after_check n c\<close> is the index of the next clock reading
  once the item has been checked at index \<open>n\<close>.
\<close>

definition after_check :: "nat \<Rightarrow> 'a item \<Rightarrow> nat" where
  "after_check n c = (if IsZero (expires c) then n else Suc n)"

text \<open>
  The fields of \<^verbatim>\<open>Cache[K, V]\<close>. Every value the package stores in \<open>items\<close> is a
  \<^verbatim>\<open>*item[V]\<close> that is never written through again, so the map holds the pointees.
  The channel \<open>close\<close> is only ever closed, never sent on: the field says whether it
  has been closed. \<open>chainAdd\<close> and \<open>chainDel\<close> are channels of capacity 1: the list
  holds the buffered value first, then the values of the senders parked on the
  channel, in the order the runtime will deliver them.
\<close>

record ('k, 'v) Cache =
  items :: "'k \<rightharpoonup> 'v item"
  chain :: "'k item list"
  close :: bool
  chainAdd :: "'k item list"
  chainDel :: "'k list"

text \<open>\<^verbatim>\<open>New\<close>: the fields of a fresh cache (its cleaner goroutine is \<open>cleaner_boot\<close> below).\<close>

definition New :: "('k, 'v) Cache" where
  "New = \<lparr>items = Map.empty, chain = [], close = False, chainAdd = [], chainDel = []\<rparr>"

subsection \<open>The store's compare-and-delete\<close>

text \<open>
  \<^verbatim>\<open>sync.Map.CompareAndDelete(key, old)\<close> deletes the entry when the stored value and
  \<open>old\<close>, both of interface type \<^verbatim>\<open>any\<close>, are equal: same dynamic type and equal
  values. The stored value is a \<^verbatim>\<open>*item[V]\<close>. The package calls the function in one
  place, the cleaner, and hands it an \<^verbatim>\<open>item[K]\<close> struct, so \<open>old\<close> has that type
  here; two pointers, which Go compares by address, are never compared. The
  datatype holds the dynamic values that meet in the comparison.
\<close>

datatype ('k, 'v) any = PtrItemV "'v item" | ItemK "'k item"

definition CompareAndDelete ::
  "('k \<rightharpoonup> 'v item) \<Rightarrow> 'k \<Rightarrow> 'k item \<Rightarrow> ('k \<rightharpoonup> 'v item)" where
  "CompareAndDelete m key old =
     (case m key of
        None \<Rightarrow> m
      | Some p \<Rightarrow> if (PtrItemV p :: ('k, 'v) any) = ItemK old then m(key := None) else m)"

subsection \<open>Chain operations\<close>

text \<open>
  \<^verbatim>\<open>chainInsert\<close>: the empty chain takes the node as its head. Otherwise the loop
  walks \<open>ring\<close> from the head: at the last record the node is linked behind it; at a
  record that expires after the node, the node is linked between that record and
  its successor; otherwise the walk moves on.
\<close>

fun chainInsert :: "'k item \<Rightarrow> 'k item list \<Rightarrow> 'k item list" where
  "chainInsert node [] = [node]"
| "chainInsert node [ring] = [ring, node]"
| "chainInsert node (ring # nxt # rest) =
     (if After (expires ring) (expires node) then ring # node # nxt # rest
      else ring # chainInsert node (nxt # rest))"

text \<open>
  \<^verbatim>\<open>chainSplice\<close>: nothing on the empty chain; a matching head is unlinked; otherwise
  the loop unlinks the first later record with the key, if there is one.
\<close>

fun chainSplice :: "'k \<Rightarrow> 'k item list \<Rightarrow> 'k item list" where
  "chainSplice key [] = []"
| "chainSplice key (node # rest) =
     (if data node = key then rest else node # chainSplice key rest)"

text \<open>
  The loop of the timer case: while the head has expired, compare-and-delete its key
  with the head's own \<^verbatim>\<open>item[K]\<close> as the expected value, and drop the head. A head
  that has expired has had the clock read for it.
\<close>

fun sweep ::
  "(nat \<Rightarrow> time) \<Rightarrow> nat \<Rightarrow> 'k item list \<Rightarrow> ('k \<rightharpoonup> 'v item) \<Rightarrow> 'k item list \<times> ('k \<rightharpoonup> 'v item)" where
  "sweep clk n [] m = ([], m)"
| "sweep clk n (head # rest) m =
     (if HasExpired (clk n) head
      then sweep clk (Suc n) rest (CompareAndDelete m (data head) head)
      else (head # rest, m))"

section \<open>The cleaner goroutine\<close>

text \<open>
  A \<^verbatim>\<open>select\<close> takes one of the cases that can proceed; which one is the
  scheduler's choice, given here as the argument \<open>sel\<close>. A choice that cannot
  proceed in the state yields \<open>None\<close>. A receive from \<open>chainAdd\<close> or \<open>chainDel\<close>
  proceeds when the channel holds a value, the case of \<open>close\<close> once that channel
  is closed, \<open>default\<close> when no other case can. When the timer's channel delivers
  is left to the caller of the model: \<open>SelTimer clk\<close> is the timer case, with the
  clock readings of its sweep.
\<close>

datatype sel = SelClose | SelChainAdd | SelChainDel | SelTimer "nat \<Rightarrow> time" | SelDefault

datatype phase = Bootstrapping | Armed | Terminated

text \<open>
  The test that follows both selects: with an empty chain the goroutine returns,
  otherwise it (re)arms the timer and waits in the loop's select.
\<close>

definition exit_if_empty :: "('k, 'v) Cache \<Rightarrow> phase \<times> ('k, 'v) Cache" where
  "exit_if_empty c = (if chain c = [] then (Terminated, c) else (Armed, c))"

text \<open>The first select of \<^verbatim>\<open>cleaner\<close>, with its \<^verbatim>\<open>default\<close> case, and the test after it.\<close>

fun cleaner_boot :: "sel \<Rightarrow> ('k, 'v) Cache \<Rightarrow> (phase \<times> ('k, 'v) Cache) option" where
  "cleaner_boot SelChainAdd c =
     (case chainAdd c of
        [] \<Rightarrow> None
      | node # q \<Rightarrow> Some (exit_if_empty (c\<lparr>chainAdd := q, chain := chainInsert node (chain c)\<rparr>)))"
| "cleaner_boot SelChainDel c =
     (case chainDel c of
        [] \<Rightarrow> None
      | key # q \<Rightarrow> Some (exit_if_empty (c\<lparr>chainDel := q, chain := chainSplice key (chain c)\<rparr>)))"
| "cleaner_boot SelDefault c =
     (if chainAdd c = [] \<and> chainDel c = [] then Some (exit_if_empty c) else None)"
| "cleaner_boot SelClose c = None"
| "cleaner_boot (SelTimer clk) c = None"

text \<open>One pass of the \<^verbatim>\<open>for\<close> loop of \<^verbatim>\<open>cleaner\<close>: its select and the test after it.\<close>

fun cleaner_iter :: "sel \<Rightarrow> ('k, 'v) Cache \<Rightarrow> (phase \<times> ('k, 'v) Cache) option" where
  "cleaner_iter SelClose c = (if close c then Some (Terminated, c) else None)"
| "cleaner_iter SelChainAdd c =
     (case chainAdd c of
        [] \<Rightarrow> None
      | node # q \<Rightarrow> Some (exit_if_empty (c\<lparr>chainAdd := q, chain := chainInsert node (chain c)\<rparr>)))"
| "cleaner_iter SelChainDel c =
     (case chainDel c of
        [] \<Rightarrow> None
      | key # q \<Rightarrow> Some (exit_if_empty (c\<lparr>chainDel := q, chain := chainSplice key (chain c)\<rparr>)))"
| "cleaner_iter (SelTimer clk) c =
     (if chain c = [] then Some (Terminated, c)
      else case sweep clk 0 (chain c) (items c) of
             (ch, m) \<Rightarrow> Some (exit_if_empty (c\<lparr>chain := ch, items := m\<rparr>)))"
| "cleaner_iter SelDefault c = None"

section \<open>The facade\<close>

text \<open>
  A call either returns or stays parked at a channel send: a send on a channel of
  capacity 1 returns at once when the channel is empty and parks the caller
  otherwise. Either way the value joins the channel's list.
\<close>

datatype 'a outcome = Returned 'a | Parked 'a

fun state_of :: "'a outcome \<Rightarrow> 'a" where
  "state_of (Returned c) = c"
| "state_of (Parked c) = c"

definition send :: "'a list \<Rightarrow> 'a \<Rightarrow> 'a list" where
  "send q x = q @ [x]"

definition after_send :: "'a list \<Rightarrow> 'c \<Rightarrow> 'c outcome" where
  "after_send q c = (if length q < 1 then Returned c else Parked c)"

text \<open>
  \<^verbatim>\<open>Close\<close> closes the channel \<open>close\<close>; closing a closed channel panics (\<open>None\<close>).
\<close>

definition Close :: "('k, 'v) Cache \<Rightarrow> ('k, 'v) Cache option" where
  "Close c = (if close c then None else Some (c\<lparr>close := True\<rparr>))"

text \<open>
  \<^verbatim>\<open>GetExpires\<close> and \<^verbatim>\<open>Get\<close>; \<open>v\<close> is the zero value of \<^verbatim>\<open>V\<close> and \<open>0\<close> the zero
  instant.
\<close>

definition GetExpires :: "'v \<Rightarrow> time \<Rightarrow> ('k, 'v) Cache \<Rightarrow> 'k \<Rightarrow> 'v \<times> time \<times> bool" where
  "GetExpires v now c key =
     (case items c key of
        None \<Rightarrow> (v, 0, False)
      | Some i \<Rightarrow> if HasExpired now i then (v, 0, False) else (data i, expires i, True))"

definition Get :: "'v \<Rightarrow> time \<Rightarrow> ('k, 'v) Cache \<Rightarrow> 'k \<Rightarrow> 'v \<times> bool" where
  "Get v now c key = (case GetExpires v now c key of (value, _, found) \<Rightarrow> (value, found))"

definition SetPermanent :: "('k, 'v) Cache \<Rightarrow> 'k \<Rightarrow> 'v \<Rightarrow> ('k, 'v) Cache" where
  "SetPermanent c key value =
     (if close c then c
      else c\<lparr>items := (items c)(key \<mapsto> \<lparr>data = value, expires = 0\<rparr>)\<rparr>)"

definition Set :: "time \<Rightarrow> ('k, 'v) Cache \<Rightarrow> 'k \<Rightarrow> 'v \<Rightarrow> time \<Rightarrow> ('k, 'v) Cache outcome" where
  "Set now c key value exp =
     (if close c then Returned c
      else if Before exp now then Returned c
      else after_send (chainAdd c)
             (c\<lparr>items := (items c)(key \<mapsto> \<lparr>data = value, expires = exp\<rparr>),
                chainAdd := send (chainAdd c) \<lparr>data = key, expires = exp\<rparr>\<rparr>))"

definition Delete :: "('k, 'v) Cache \<Rightarrow> 'k \<Rightarrow> ('k, 'v) Cache outcome" where
  "Delete c key =
     (if close c then Returned c
      else after_send (chainDel c)
             (c\<lparr>items := (items c)(key := None), chainDel := send (chainDel c) key\<rparr>))"

text \<open>
  \<^verbatim>\<open>Range\<close>. \<^verbatim>\<open>sync.Map.Range\<close> visits the keys in an order of its own, here the
  list \<open>keys\<close>; a key with no entry is passed over. The visitor \<open>f\<close> is taken to be
  a function of its two arguments that does not call into the cache. The clock
  is read once for every entry with a non-zero expiry that is checked. The result
  lists the calls made to \<open>f\<close>, in order, beside the cache.
\<close>

fun Range_cache ::
  "(nat \<Rightarrow> time) \<Rightarrow> nat \<Rightarrow> ('k, 'v) Cache \<Rightarrow> ('k \<Rightarrow> 'v \<Rightarrow> bool) \<Rightarrow> 'k list
     \<Rightarrow> ('k \<times> 'v) list \<times> ('k, 'v) Cache" where
  "Range_cache clk n c f [] = ([], c)"
| "Range_cache clk n c f (key # keys) =
     (case items c key of
        None \<Rightarrow> Range_cache clk n c f keys
      | Some item \<Rightarrow>
          if HasExpired (clk n) item then Range_cache clk (after_check n item) c f keys
          else if f key (data item)
            then (case Range_cache clk (after_check n item) c f keys of
                    (calls, c') \<Rightarrow> ((key, data item) # calls, c'))
            else ([(key, data item)], c))"

section \<open>Callers and the cleaner together\<close>

text \<open>
  An interleaving of facade calls from any number of goroutines with the steps of
  the one cleaner goroutine that \<^verbatim>\<open>New\<close> starts. A step is \<open>None\<close> when it cannot
  be taken: a second \<^verbatim>\<open>Close\<close> panics, a select case is not ready, and a cleaner
  that has returned takes no step.
\<close>

datatype ('k, 'v) action =
    CallSetPermanent 'k 'v
  | CallSet time 'k 'v time
  | CallDelete 'k
  | CallClose
  | Cleaner sel

fun sys_step ::
  "('k, 'v) action \<Rightarrow> phase \<times> ('k, 'v) Cache \<Rightarrow> (phase \<times> ('k, 'v) Cache) option" where
  "sys_step (CallSetPermanent key value) (ph, c) = Some (ph, SetPermanent c key value)"
| "sys_step (CallSet now key value exp) (ph, c) = Some (ph, state_of (Set now c key value exp))"
| "sys_step (CallDelete key) (ph, c) = Some (ph, state_of (Delete c key))"
| "sys_step CallClose (ph, c) = map_option (Pair ph) (Close c)"
| "sys_step (Cleaner s) (Bootstrapping, c) = cleaner_boot s c"
| "sys_step (Cleaner s) (Armed, c) = cleaner_iter s c"
| "sys_step (Cleaner s) (Terminated, c) = None"

fun sys_run ::
  "('k, 'v) action list \<Rightarrow> phase \<times> ('k, 'v) Cache \<Rightarrow> (phase \<times> ('k, 'v) Cache) option" where
  "sys_run [] st = Some st"
| "sys_run (a # as) st = (case sys_step a st of None \<Rightarrow> None | Some st' \<Rightarrow> sys_run as st')"

text \<open>Whether an action is a call that writes or deletes the key.\<close>

fun writes_key :: "'k \<Rightarrow> ('k, 'v) action \<Rightarrow> bool" where
  "writes_key k (CallSetPermanent key value) = (key = k)"
| "writes_key k (CallSet now key value exp) = (key = k)"
| "writes_key k (CallDelete key) = (key = k)"
| "writes_key k CallClose = False"
| "writes_key k (Cleaner s) = False"

text \<open>Whether an action is one of the writing calls: a set or a delete.\<close>

fun is_write :: "('k, 'v) action \<Rightarrow> bool" where
  "is_write (CallSetPermanent key value) = True"
| "is_write (CallSet now key value exp) = True"
| "is_write (CallDelete key) = True"
| "is_write CallClose = False"
| "is_write (Cleaner s) = False"

section \<open>Helper facts\<close>

subsection \<open>The cleaner never changes the store\<close>

lemma CompareAndDelete_never: "CompareAndDelete m key old = m"
  by (simp add: CompareAndDelete_def split: option.split)

lemma sweep_items: "snd (sweep clk n ch m) = m"
  by (induction ch arbitrary: n) (simp_all add: CompareAndDelete_never)

lemma sweep_items_eq: "sweep clk n ch m = (ch', m') \<Longrightarrow> m' = m"
  using sweep_items [of clk n ch m] by simp

lemma exit_if_empty_eq:
  "exit_if_empty c = (ph, c') \<Longrightarrow>
     c' = c \<and> (ph = Terminated \<longleftrightarrow> chain c = []) \<and> (ph = Armed \<longleftrightarrow> chain c \<noteq> [])"
  by (auto simp: exit_if_empty_def split: if_splits)

lemma chainInsert_not_Nil: "chainInsert node ch \<noteq> []"
  by (induction node ch rule: chainInsert.induct) simp_all

lemma cleaner_iter_items: "cleaner_iter s c = Some (ph, c') \<Longrightarrow> items c' = items c"
  by (cases s)
    (auto dest!: exit_if_empty_eq sweep_items_eq split: list.splits if_splits prod.splits)

lemma cleaner_boot_items: "cleaner_boot s c = Some (ph, c') \<Longrightarrow> items c' = items c"
  by (cases s) (auto dest!: exit_if_empty_eq split: list.splits if_splits)

subsection \<open>Calls never change the chain\<close>

lemma Set_chain: "chain (state_of (Set now c key value exp)) = chain c"
  by (simp add: Set_def after_send_def)

lemma Delete_chain: "chain (state_of (Delete c key)) = chain c"
  by (simp add: Delete_def after_send_def)

lemma SetPermanent_chain: "chain (SetPermanent c key value) = chain c"
  by (simp add: SetPermanent_def)

lemma Close_chain: "Close c = Some c' \<Longrightarrow> chain c' = chain c"
  by (auto simp: Close_def split: if_splits)

subsection \<open>Runs\<close>

lemma sys_step_items:
  "sys_step a (ph, c) = Some (ph', c') \<Longrightarrow> \<not> writes_key k a \<Longrightarrow> items c' k = items c k"
proof (cases a)
  case (Cleaner s)
  assume "sys_step a (ph, c) = Some (ph', c')"
  with Cleaner show ?thesis
    by (cases ph) (auto dest: cleaner_boot_items cleaner_iter_items)
qed (auto simp: SetPermanent_def Set_def Delete_def Close_def after_send_def split: if_splits)

lemma sys_run_items:
  "sys_run acts (ph, c) = Some (ph', c') \<Longrightarrow> \<not> list_ex (writes_key k) acts
     \<Longrightarrow> items c' k = items c k"
proof (induction acts arbitrary: ph c)
  case Nil
  then show ?case by simp
next
  case (Cons a acts)
  from Cons.prems obtain ph1 c1 where step: "sys_step a (ph, c) = Some (ph1, c1)"
    and run: "sys_run acts (ph1, c1) = Some (ph', c')"
    by (auto split: option.splits)
  from Cons.prems have "\<not> writes_key k a" "\<not> list_ex (writes_key k) acts" by simp_all
  with step run Cons.IH show ?case
    by (metis sys_step_items)
qed

lemma cleaner_run_items:
  "sys_run (map Cleaner ss) (ph, c) = Some (ph', c') \<Longrightarrow> items c' = items c"
proof
  fix k
  assume run: "sys_run (map Cleaner ss) (ph, c) = Some (ph', c')"
  have "\<not> list_ex (writes_key k) (map Cleaner ss :: ('a, 'b) action list)"
    by (induction ss) simp_all
  with run show "items c' k = items c k" by (rule sys_run_items)
qed

lemma sys_step_Terminated:
  "sys_step a (Terminated, c) = Some (ph', c') \<Longrightarrow> ph' = Terminated \<and> chain c' = chain c"
  by (cases a) (auto simp: Set_chain Delete_chain SetPermanent_chain dest: Close_chain)

lemma sys_run_Terminated:
  "sys_run acts (Terminated, c) = Some (ph', c') \<Longrightarrow> ph' = Terminated \<and> chain c' = chain c"
proof (induction acts arbitrary: c)
  case Nil
  then show ?case by simp
next
  case (Cons a acts)
  from Cons.prems obtain ph1 c1 where step: "sys_step a (Terminated, c) = Some (ph1, c1)"
    and run: "sys_run acts (ph1, c1) = Some (ph', c')"
    by (auto split: option.splits)
  from step have "ph1 = Terminated" "chain c1 = chain c"
    using sys_step_Terminated by blast+
  with run Cons.IH show ?case by auto
qed

lemma sys_run_Terminated_calls:
  "sys_run acts (Terminated, c) = Some (ph', c') \<Longrightarrow> Cleaner s \<notin> set acts"
proof (induction acts arbitrary: c)
  case Nil
  then show ?case by simp
next
  case (Cons a acts)
  from Cons.prems obtain ph1 c1 where step: "sys_step a (Terminated, c) = Some (ph1, c1)"
    and run: "sys_run acts (ph1, c1) = Some (ph', c')"
    by (auto split: option.splits)
  from step have "ph1 = Terminated"
    using sys_step_Terminated by blast
  moreover from step have "a \<noteq> Cleaner s" by auto
  ultimately show ?case using run Cons.IH by auto
qed

subsection \<open>Reads depend on the entry only\<close>

lemma GetExpires_cong:
  "items c' key = items c key \<Longrightarrow> GetExpires v t c' key = GetExpires v t c key"
  by (simp add: GetExpires_def)

lemma Get_cong: "items c' key = items c key \<Longrightarrow> Get v t c' key = Get v t c key"
  by (simp add: Get_def GetExpires_def)

section \<open>The sweep\<close>

text \<open>
  C1. When the timer fires the cleaner pops every expired head record and is said
  to remove the key's entry from the store when it still is the one scheduled. On
  the code the removal never happens: \<^verbatim>\<open>CompareAndDelete\<close> is handed the chain
  record, an \<^verbatim>\<open>item[K]\<close>, while the store holds a \<^verbatim>\<open>*item[V]\<close>, and the two
  never compare equal. In the run below a timed write is scheduled and never
  touched again; the sweep at instant 6 pops its record (the chain is empty and
  the cleaner returns) and the expired entry is still in the store.
\<close>

theorem sweep_keeps_expired_entry:
  "sys_run [CallSet 0 ''a'' ''b'' 5, Cleaner SelChainAdd, Cleaner (SelTimer (\<lambda>_. 6))]
     (Bootstrapping, (New :: (string, string) Cache))
   = Some (Terminated, New\<lparr>items := [''a'' \<mapsto> \<lparr>data = ''b'', expires = 5\<rparr>]\<rparr>)
   \<and> HasExpired 6 \<lparr>data = ''b'', expires = 5\<rparr>"
  by (simp add: New_def Set_def Before_def after_send_def send_def exit_if_empty_def
      HasExpired_def IsZero_def CompareAndDelete_def)

section \<open>Order of the chain\<close>

text \<open>
  C2. The chain is said to stay ascending by expiry, a new record going before the
  first record that expires strictly later. On the code a record is linked behind
  the record the walk stops at, never before it, and the last record's expiry is
  not looked at: inserting expiry 5 into the chain holding expiry 10 gives the
  chain 10, 5, and into the chain 10, 20 gives 10, 5, 20. The first case is
  reached from a fresh cache by two calls of \<open>Set\<close>, each taken up by the
  cleaner.
\<close>

theorem chainInsert_breaks_order:
  "chainInsert \<lparr>data = ''b'', expires = 5\<rparr> [\<lparr>data = ''a'', expires = 10\<rparr>]
     = [\<lparr>data = ''a'', expires = 10\<rparr>, \<lparr>data = ''b'', expires = 5\<rparr>]
   \<and> \<not> sorted (map expires
          (chainInsert \<lparr>data = ''b'', expires = 5\<rparr> [\<lparr>data = ''a'', expires = 10\<rparr>]))
   \<and> chainInsert \<lparr>data = ''c'', expires = 5\<rparr>
        [\<lparr>data = ''a'', expires = 10\<rparr>, \<lparr>data = ''b'', expires = 20\<rparr>]
     = [\<lparr>data = ''a'', expires = 10\<rparr>, \<lparr>data = ''c'', expires = 5\<rparr>,
        \<lparr>data = ''b'', expires = 20\<rparr>]
   \<and> sys_run [CallSet 0 ''a'' ''x'' 10, Cleaner SelChainAdd, CallSet 0 ''b'' ''y'' 5, Cleaner SelChainAdd]
        (Bootstrapping, (New :: (string, string) Cache))
     = Some (Armed, New
         \<lparr>items := [''a'' \<mapsto> \<lparr>data = ''x'', expires = 10\<rparr>, ''b'' \<mapsto> \<lparr>data = ''y'', expires = 5\<rparr>],
          chain := [\<lparr>data = ''a'', expires = 10\<rparr>, \<lparr>data = ''b'', expires = 5\<rparr>]\<rparr>)"
  by (simp add: After_def New_def Set_def Before_def after_send_def send_def exit_if_empty_def)

section \<open>Lazy expiry on reads\<close>

text \<open>
  C3, as stated: a key stored with expiry \<open>e\<close> is found at every \<open>t < e\<close> and not
  found at every \<open>t \<ge> e\<close>. At \<open>t = e\<close> the code still finds it: an entry with
  expiry 5 read at instant 5.
\<close>

theorem GetExpires_at_expiry_counterexample:
  "(5::time) \<ge> 5
   \<and> items ((New :: (string, string) Cache)
        \<lparr>items := [''a'' \<mapsto> \<lparr>data = ''b'', expires = 5\<rparr>]\<rparr>) ''a''
       = Some \<lparr>data = ''b'', expires = 5\<rparr>
   \<and> GetExpires '''' 5 ((New :: (string, string) Cache)
        \<lparr>items := [''a'' \<mapsto> \<lparr>data = ''b'', expires = 5\<rparr>]\<rparr>) ''a''
       = (''b'', 5, True)
   \<and> Get '''' 5 ((New :: (string, string) Cache)
        \<lparr>items := [''a'' \<mapsto> \<lparr>data = ''b'', expires = 5\<rparr>]\<rparr>) ''a''
       = (''b'', True)"
  by (simp add: New_def GetExpires_def Get_def HasExpired_def IsZero_def Before_def)

text \<open>
  C3, amended: for a key stored with a non-zero expiry \<open>e\<close>, \<open>Get\<close> and
  \<open>GetExpires\<close> return the stored value with found = true at every \<open>t \<le> e\<close>, and
  the zero value, the zero instant and found = false at every \<open>t > e\<close>; and a
  read gives the same result before and after any steps of the cleaner.
\<close>

theorem GetExpires_lazy_expiry:
  assumes "items c key = Some i" and "expires i \<noteq> 0"
  shows "(t \<le> expires i \<longrightarrow>
            GetExpires v t c key = (data i, expires i, True) \<and> Get v t c key = (data i, True))
       \<and> (expires i < t \<longrightarrow>
            GetExpires v t c key = (v, 0, False) \<and> Get v t c key = (v, False))
       \<and> (sys_run (map Cleaner ss) (ph, c) = Some (ph', c') \<longrightarrow>
            GetExpires v t c' key = GetExpires v t c key \<and> Get v t c' key = Get v t c key)"
proof (intro conjI impI)
  assume "sys_run (map Cleaner ss) (ph, c) = Some (ph', c')"
  then have same: "items c' key = items c key" by (simp add: cleaner_run_items)
  from same show "GetExpires v t c' key = GetExpires v t c key" by (rule GetExpires_cong)
  from same show "Get v t c' key = Get v t c key" by (rule Get_cong)
qed (use assms in \<open>simp_all add: GetExpires_def Get_def HasExpired_def IsZero_def Before_def\<close>)

theorem GetExpires_lazy_expiry_witness:
  "GetExpires '''' 4 ((New :: (string, string) Cache)
      \<lparr>items := [''a'' \<mapsto> \<lparr>data = ''b'', expires = 5\<rparr>],
       chain := [\<lparr>data = ''a'', expires = 5\<rparr>]\<rparr>) ''a'' = (''b'', 5, True)
   \<and> GetExpires '''' 6 ((New :: (string, string) Cache)
      \<lparr>items := [''a'' \<mapsto> \<lparr>data = ''b'', expires = 5\<rparr>],
       chain := [\<lparr>data = ''a'', expires = 5\<rparr>]\<rparr>) ''a'' = ('''', 0, False)
   \<and> GetExpires '''' 6 ((New :: (string, string) Cache)
      \<lparr>items := [''a'' \<mapsto> \<lparr>data = ''b'', expires = 5\<rparr>]\<rparr>) ''a'' = ('''', 0, False)"
proof -
  let ?c = "(New :: (string, string) Cache)
      \<lparr>items := [''a'' \<mapsto> \<lparr>data = ''b'', expires = 5\<rparr>],
       chain := [\<lparr>data = ''a'', expires = 5\<rparr>]\<rparr>"
  let ?c' = "(New :: (string, string) Cache)
      \<lparr>items := [''a'' \<mapsto> \<lparr>data = ''b'', expires = 5\<rparr>]\<rparr>"
  have stored: "items ?c ''a'' = Some \<lparr>data = ''b'', expires = 5\<rparr>"
    by (simp add: New_def)
  have timed: "expires \<lparr>data = ''b'', expires = 5\<rparr> \<noteq> 0"
    by simp
  have swept: "sys_run (map Cleaner [SelTimer (\<lambda>_. 6)]) (Armed, ?c) = Some (Terminated, ?c')"
    by (simp add: New_def exit_if_empty_def HasExpired_def IsZero_def Before_def
        CompareAndDelete_def)
  note fact = GetExpires_lazy_expiry [OF stored timed]
  from fact [where t = 4 and v = "''''"] swept
    fact [where t = 6 and v = "''''" and ss = "[SelTimer (\<lambda>_. 6)]" and ph = Armed
      and ph' = Terminated and c' = ?c']
  show ?thesis by simp
qed

section \<open>Writes with an expiry\<close>

text \<open>
  C4, as stated: \<open>Set\<close> on an open cache with an expiry that is not strictly later
  than the current time changes nothing. With the expiry equal to the current time
  the code writes the entry and sends the insert: on a fresh cache, at instant 5
  with expiry 5, the key was absent before and is found after, and \<open>chainAdd\<close>
  holds the record.
\<close>

theorem Set_at_now_counterexample:
  "\<not> After 5 5
   \<and> \<not> close (New :: (string, string) Cache)
   \<and> GetExpires '''' 5 (New :: (string, string) Cache) ''a'' = ('''', 0, False)
   \<and> Set 5 (New :: (string, string) Cache) ''a'' ''b'' 5
       = Returned (New\<lparr>items := [''a'' \<mapsto> \<lparr>data = ''b'', expires = 5\<rparr>],
                         chainAdd := [\<lparr>data = ''a'', expires = 5\<rparr>]\<rparr>)
   \<and> GetExpires '''' 5 (state_of (Set 5 (New :: (string, string) Cache) ''a'' ''b'' 5)) ''a''
       = (''b'', 5, True)"
  by (simp add: After_def New_def Set_def Before_def after_send_def send_def GetExpires_def
      HasExpired_def IsZero_def)

text \<open>
  C4, amended: \<open>Set\<close> on an open cache with an expiry strictly earlier than the
  current time is a complete no-op: the call returns with the cache as it was, so
  the store is unchanged (every read answers as before) and nothing is sent on
  \<open>chainAdd\<close>.
\<close>

theorem Set_past_expiry_noop:
  assumes "\<not> close c" and "Before exp now"
  shows "Set now c key val exp = Returned c
       \<and> items (state_of (Set now c key val exp)) = items c
       \<and> chainAdd (state_of (Set now c key val exp)) = chainAdd c
       \<and> GetExpires v t (state_of (Set now c key val exp)) k = GetExpires v t c k"
  using assms by (simp add: Set_def)

theorem Set_past_expiry_noop_witness:
  "Set 5 ((New :: (string, string) Cache)\<lparr>items := [''a'' \<mapsto> \<lparr>data = ''b'', expires = 0\<rparr>]\<rparr>)
       ''a'' ''c'' 4
     = Returned ((New :: (string, string) Cache)
         \<lparr>items := [''a'' \<mapsto> \<lparr>data = ''b'', expires = 0\<rparr>]\<rparr>)
   \<and> GetExpires '''' 5
       (state_of (Set 5 ((New :: (string, string) Cache)
          \<lparr>items := [''a'' \<mapsto> \<lparr>data = ''b'', expires = 0\<rparr>]\<rparr>) ''a'' ''c'' 4)) ''a''
     = (''b'', 0, True)"
proof -
  let ?c = "(New :: (string, string) Cache)\<lparr>items := [''a'' \<mapsto> \<lparr>data = ''b'', expires = 0\<rparr>]\<rparr>"
  have opened: "\<not> close ?c"
    by (simp add: New_def)
  have past: "Before 4 5"
    by (simp add: Before_def)
  have before: "GetExpires '''' 5 ?c ''a'' = (''b'', 0, True)"
    by (simp add: New_def GetExpires_def HasExpired_def IsZero_def)
  from Set_past_expiry_noop [OF opened past, of "''a''" "''c''" "''''" 5 "''a''"] before
  show ?thesis by simp
qed

section \<open>The boundary instant\<close>





section \<open>Permanent entries\<close>

text \<open>
  C10. After \<open>SetPermanent\<close> on an open cache, and as long as no later call sets or
  deletes the key, \<open>GetExpires\<close> returns the value, the zero instant and
  found = true, whatever the clock says. For an absent key it returns the zero
  instant too, with found = false: the expiry field does not tell the two apart,
  the flag does.
\<close>

theorem SetPermanent_zero_expiry:
  assumes "\<not> close c"
  shows "GetExpires v now (SetPermanent c key val) key = (val, 0, True)
       \<and> (sys_run acts (ph, SetPermanent c key val) = Some (ph', c')
            \<and> \<not> list_ex (writes_key key) acts \<longrightarrow>
          GetExpires v now c' key = (val, 0, True))
       \<and> (items c k = None \<longrightarrow> GetExpires v now c k = (v, 0, False))"
proof (intro conjI impI)
  from assms show first: "GetExpires v now (SetPermanent c key val) key = (val, 0, True)"
    by (simp add: SetPermanent_def GetExpires_def HasExpired_def IsZero_def)
  assume "sys_run acts (ph, SetPermanent c key val) = Some (ph', c')
    \<and> \<not> list_ex (writes_key key) acts"
  then have "items c' key = items (SetPermanent c key val) key"
    by (blast intro: sys_run_items)
  then have "GetExpires v now c' key = GetExpires v now (SetPermanent c key val) key"
    by (rule GetExpires_cong)
  with first show "GetExpires v now c' key = (val, 0, True)" by simp
next
  assume "items c k = None"
  then show "GetExpires v now c k = (v, 0, False)"
    by (simp add: GetExpires_def)
qed

theorem SetPermanent_zero_expiry_witness:
  "GetExpires '''' 7 (SetPermanent (New :: (string, string) Cache) ''a'' ''b'') ''a''
     = (''b'', 0, True)
   \<and> GetExpires '''' 7 ((New :: (string, string) Cache)
        \<lparr>items := [''a'' \<mapsto> \<lparr>data = ''b'', expires = 0\<rparr>, ''x'' \<mapsto> \<lparr>data = ''y'', expires = 9\<rparr>],
         chain := [\<lparr>data = ''x'', expires = 9\<rparr>]\<rparr>) ''a''
     = (''b'', 0, True)
   \<and> GetExpires '''' 7 (New :: (string, string) Cache) ''a'' = ('''', 0, False)"
proof -
  let ?acts = "[CallSet 0 ''x'' ''y'' 9, Cleaner SelChainAdd] :: (string, string) action list"
  let ?c' = "(New :: (string, string) Cache)
        \<lparr>items := [''a'' \<mapsto> \<lparr>data = ''b'', expires = 0\<rparr>, ''x'' \<mapsto> \<lparr>data = ''y'', expires = 9\<rparr>],
         chain := [\<lparr>data = ''x'', expires = 9\<rparr>]\<rparr>"
  have opened: "\<not> close (New :: (string, string) Cache)"
    by (simp add: New_def)
  have absent: "items (New :: (string, string) Cache) ''a'' = None"
    by (simp add: New_def)
  have run: "sys_run ?acts (Bootstrapping, SetPermanent (New :: (string, string) Cache) ''a'' ''b'')
      = Some (Armed, ?c') \<and> \<not> list_ex (writes_key ''a'') ?acts"
    by (simp add: New_def SetPermanent_def Set_def Before_def after_send_def send_def
        exit_if_empty_def)
  note fact = SetPermanent_zero_expiry [OF opened, where v = "''''" and now = 7 and key = "''a''"
      and val = "''b''" and k = "''a''" and acts = ?acts and ph = Bootstrapping and ph' = Armed
      and c' = ?c']
  note first = fact [THEN conjunct1]
  note later = fact [THEN conjunct2, THEN conjunct1, THEN mp, OF run]
  note none = fact [THEN conjunct2, THEN conjunct2, THEN mp, OF absent]
  from first later none show ?thesis
    by (intro conjI)
qed

section \<open>Range\<close>


lemma Range_cache_items_cong:
  "items c' = items c \<Longrightarrow> fst (Range_cache clk n c' f keys) = fst (Range_cache clk n c f keys)"
  by (induction keys arbitrary: n) (simp_all add: split_beta split: option.split)






section \<open>After Close\<close>

lemma closed_step:
  "close c \<Longrightarrow> is_write a \<Longrightarrow> sys_step a (ph, c) = Some (ph, c)"
  by (cases a) (simp_all add: SetPermanent_def Set_def Delete_def)

lemma closed_run:
  "close c \<Longrightarrow> list_all is_write acts \<Longrightarrow> sys_run acts (ph, c) = Some (ph, c)"
  by (induction acts) (simp_all add: closed_step)

lemma cleaner_iter_close: "cleaner_iter s c = Some (ph, c') \<Longrightarrow> close c' = close c"
  by (cases s)
    (auto dest!: exit_if_empty_eq split: list.splits if_splits prod.splits)

lemma cleaner_boot_close: "cleaner_boot s c = Some (ph, c') \<Longrightarrow> close c' = close c"
  by (cases s) (auto dest!: exit_if_empty_eq split: list.splits if_splits)

lemma closed_sys_step:
  assumes "sys_step a (ph, c) = Some (ph', c')" and "close c"
  shows "close c' \<and> items c' = items c"
proof (cases a)
  case (Cleaner s)
  show ?thesis
  proof (cases ph)
    case Bootstrapping
    with assms(1) Cleaner have "cleaner_boot s c = Some (ph', c')" by simp
    with assms(2) show ?thesis
      by (simp add: cleaner_boot_close cleaner_boot_items)
  next
    case Armed
    with assms(1) Cleaner have "cleaner_iter s c = Some (ph', c')" by simp
    with assms(2) show ?thesis
      by (simp add: cleaner_iter_close cleaner_iter_items)
  next
    case Terminated
    with assms(1) Cleaner show ?thesis by simp
  qed
qed (use assms in \<open>auto simp: SetPermanent_def Set_def Delete_def Close_def\<close>)

lemma closed_sys_run:
  "sys_run acts (ph, c) = Some (ph', c') \<Longrightarrow> close c \<Longrightarrow> close c' \<and> items c' = items c"
proof (induction acts arbitrary: ph c)
  case Nil
  then show ?case by simp
next
  case (Cons a acts)
  from Cons.prems obtain ph1 c1 where step: "sys_step a (ph, c) = Some (ph1, c1)"
    and run: "sys_run acts (ph1, c1) = Some (ph', c')"
    by (auto split: option.splits)
  from step Cons.prems(2) have "close c1 \<and> items c1 = items c"
    by (rule closed_sys_step)
  with Cons.IH [OF run] show ?case by simp
qed

text \<open>
  C6. Once \<open>Close\<close> has been called, in whatever state \<open>c''\<close> the calls and
  cleaner steps that follow have left the cache, \<open>SetPermanent\<close>, \<open>Set\<close> and
  \<open>Delete\<close> return at once with the cache as it was: the store is unchanged and
  nothing is sent on \<open>chainAdd\<close> or \<open>chainDel\<close>; so after any number of such
  calls the cache is still as \<open>Close\<close> left it. \<open>GetExpires\<close>, \<open>Get\<close> and
  \<open>Range\<close> answer from \<open>c''\<close> as they answer from the cache at the time of
  the close, expired entries left out.
\<close>

theorem writes_after_Close_noop:
  assumes "Close c = Some c'" and "sys_run acts (ph, c') = Some (ph', c'')"
  shows "SetPermanent c'' key val = c''
       \<and> Set now c'' key val exp = Returned c''
       \<and> Delete c'' key = Returned c''
       \<and> (list_all is_write acts \<longrightarrow> c'' = c')
       \<and> GetExpires v now c'' key = GetExpires v now c key
       \<and> Get v now c'' key = Get v now c key
       \<and> fst (Range_cache clk n c'' f keys) = fst (Range_cache clk n c f keys)"
proof -
  from assms(1) have closed': "close c'" and same': "items c' = items c"
    by (auto simp: Close_def split: if_splits)
  from assms(2) closed' have "close c'' \<and> items c'' = items c'"
    by (rule closed_sys_run)
  with same' have closed: "close c''" and same: "items c'' = items c"
    by simp_all
  from closed have sets: "SetPermanent c'' key val = c''"
    by (simp add: SetPermanent_def)
  from closed have timed: "Set now c'' key val exp = Returned c''"
    by (simp add: Set_def)
  from closed have deletes: "Delete c'' key = Returned c''"
    by (simp add: Delete_def)
  from closed' assms(2) have still: "list_all is_write acts \<longrightarrow> c'' = c'"
    by (auto simp: closed_run)
  from same have reads: "GetExpires v now c'' key = GetExpires v now c key"
    by (simp add: GetExpires_def)
  from same have gets: "Get v now c'' key = Get v now c key"
    by (simp add: Get_def GetExpires_def)
  from same
  have ranges: "fst (Range_cache clk n c'' f keys) = fst (Range_cache clk n c f keys)"
    by (rule Range_cache_items_cong)
  from sets timed deletes still reads gets ranges show ?thesis
    by (intro conjI)
qed

theorem writes_after_Close_noop_witness:
  "Set 0 ((New :: (string, string) Cache)
        \<lparr>items := [''a'' \<mapsto> \<lparr>data = ''b'', expires = 5\<rparr>],
         chain := [\<lparr>data = ''a'', expires = 5\<rparr>], close := True\<rparr>) ''b'' ''y'' 9
   = Returned ((New :: (string, string) Cache)
        \<lparr>items := [''a'' \<mapsto> \<lparr>data = ''b'', expires = 5\<rparr>],
         chain := [\<lparr>data = ''a'', expires = 5\<rparr>], close := True\<rparr>)
   \<and> GetExpires '''' 4 ((New :: (string, string) Cache)
        \<lparr>items := [''a'' \<mapsto> \<lparr>data = ''b'', expires = 5\<rparr>],
         chain := [\<lparr>data = ''a'', expires = 5\<rparr>], close := True\<rparr>) ''a''
       = (''b'', 5, True)"
proof -
  let ?c = "(New :: (string, string) Cache)
        \<lparr>items := [''a'' \<mapsto> \<lparr>data = ''b'', expires = 5\<rparr>],
         chain := [\<lparr>data = ''a'', expires = 5\<rparr>]\<rparr>"
  let ?c' = "(New :: (string, string) Cache)
        \<lparr>items := [''a'' \<mapsto> \<lparr>data = ''b'', expires = 5\<rparr>],
         chain := [\<lparr>data = ''a'', expires = 5\<rparr>], close := True\<rparr>"
  let ?acts = "[CallSetPermanent ''a'' ''x'', CallSet 0 ''b'' ''y'' 9, CallDelete ''a'']
      :: (string, string) action list"
  have closing: "Close ?c = Some ?c'"
    by (simp add: Close_def New_def)
  have run: "sys_run ?acts (Armed, ?c') = Some (Armed, ?c')"
    by (simp add: New_def SetPermanent_def Set_def Delete_def)
  have before: "GetExpires '''' 4 ?c ''a'' = (''b'', 5, True)"
    by (simp add: New_def GetExpires_def HasExpired_def IsZero_def Before_def)
  note at_write = writes_after_Close_noop [OF closing run, where now = 0 and key = "''b''"
      and val = "''y''" and exp = 9]
  note at_read = writes_after_Close_noop [OF closing run, where v = "''''" and now = 4
      and key = "''a''"]
  note timed = at_write [THEN conjunct2, THEN conjunct1]
  note same = at_read [THEN conjunct2, THEN conjunct2, THEN conjunct2, THEN conjunct2,
      THEN conjunct1]
  from same before have "GetExpires '''' 4 ?c' ''a'' = (''b'', 5, True)"
    by (rule trans)
  with timed show ?thesis
    by (intro conjI)
qed

section \<open>Permanent entries and the chain\<close>

lemma set_chainInsert: "set (chainInsert node ch) = insert node (set ch)"
  by (induction node ch rule: chainInsert.induct) auto

lemma set_chainSplice: "set (chainSplice key ch) \<subseteq> set ch"
  by (induction ch) auto

lemma set_sweep: "set (fst (sweep clk n ch m)) \<subseteq> set ch"
  by (induction ch arbitrary: n m) auto

lemma cleaner_iter_records:
  assumes "cleaner_iter s c = Some (ph, c')"
  shows "set (chain c' @ chainAdd c') \<subseteq> set (chain c @ chainAdd c)"
proof (cases s)
  case SelChainAdd
  with assms show ?thesis
    by (auto simp: set_chainInsert dest!: exit_if_empty_eq split: list.splits)
next
  case SelChainDel
  with assms show ?thesis
    using set_chainSplice by (fastforce dest!: exit_if_empty_eq split: list.splits)
next
  case (SelTimer clk)
  show ?thesis
  proof (cases "chain c = []")
    case True
    with assms SelTimer show ?thesis by simp
  next
    case False
    obtain ch m where swept: "sweep clk 0 (chain c) (items c) = (ch, m)"
      by (cases "sweep clk 0 (chain c) (items c)")
    with assms SelTimer False have "c' = c\<lparr>chain := ch, items := m\<rparr>"
      by (auto dest!: exit_if_empty_eq)
    moreover from swept have "set ch \<subseteq> set (chain c)"
      using set_sweep [of clk 0 "chain c" "items c"] by simp
    ultimately show ?thesis by auto
  qed
qed (use assms in \<open>auto split: if_splits\<close>)

lemma cleaner_boot_records:
  assumes "cleaner_boot s c = Some (ph, c')"
  shows "set (chain c' @ chainAdd c') \<subseteq> set (chain c @ chainAdd c)"
proof (cases s)
  case SelChainAdd
  with assms show ?thesis
    by (auto simp: set_chainInsert dest!: exit_if_empty_eq split: list.splits)
next
  case SelChainDel
  with assms show ?thesis
    using set_chainSplice by (fastforce dest!: exit_if_empty_eq split: list.splits)
next
  case SelDefault
  with assms show ?thesis
    by (auto dest!: exit_if_empty_eq split: if_splits)
qed (use assms in auto)

lemma sys_step_records:
  assumes "sys_step a (ph, c) = Some (ph', c')" and "\<not> writes_key k a"
    and "r \<in> set (chain c' @ chainAdd c')" and "data r = k"
  shows "r \<in> set (chain c @ chainAdd c)"
proof (cases a)
  case (Cleaner s)
  have "set (chain c' @ chainAdd c') \<subseteq> set (chain c @ chainAdd c)"
  proof (cases ph)
    case Bootstrapping
    with assms(1) Cleaner have "cleaner_boot s c = Some (ph', c')" by simp
    then show ?thesis by (rule cleaner_boot_records)
  next
    case Armed
    with assms(1) Cleaner have "cleaner_iter s c = Some (ph', c')" by simp
    then show ?thesis by (rule cleaner_iter_records)
  next
    case Terminated
    with assms(1) Cleaner show ?thesis by simp
  qed
  with assms(3) show ?thesis by blast
qed (use assms in \<open>auto simp: SetPermanent_def Set_def Delete_def Close_def after_send_def
      send_def split: if_splits\<close>)

lemma sys_run_records:
  "sys_run acts (ph, c) = Some (ph', c') \<Longrightarrow> \<not> list_ex (writes_key k) acts
     \<Longrightarrow> r \<in> set (chain c' @ chainAdd c') \<Longrightarrow> data r = k
     \<Longrightarrow> r \<in> set (chain c @ chainAdd c)"
proof (induction acts arbitrary: ph c)
  case Nil
  then show ?case by simp
next
  case (Cons a acts)
  from Cons.prems obtain ph1 c1 where step: "sys_step a (ph, c) = Some (ph1, c1)"
    and run: "sys_run acts (ph1, c1) = Some (ph', c')"
    by (auto split: option.splits)
  from Cons.prems have quiet: "\<not> writes_key k a" "\<not> list_ex (writes_key k) acts"
    by simp_all
  from Cons.IH [OF run quiet(2) Cons.prems(3) Cons.prems(4)]
  have "r \<in> set (chain c1 @ chainAdd c1)" .
  with step quiet(1) show ?case
    using Cons.prems(4) by (rule sys_step_records)
qed

text \<open>
  C7. After \<open>SetPermanent\<close> on an open cache, \<open>Get\<close> returns the value with
  found = true at every instant, at once and after any further calls and cleaner
  steps among which no call sets or deletes the key. The call leaves the chain
  and both channels as they were, and through such a run no record for the key
  appears in the chain or on \<open>chainAdd\<close> that was not there before. A second
  \<open>SetPermanent\<close> with the same key and value changes nothing: the store holds
  the one entry, with the zero expiry.
\<close>

theorem SetPermanent_never_expires:
  assumes "\<not> close c"
  shows "Get v now (SetPermanent c key val) key = (val, True)
       \<and> (sys_run acts (ph, SetPermanent c key val) = Some (ph', c')
            \<and> \<not> list_ex (writes_key key) acts \<longrightarrow>
          Get v now c' key = (val, True)
          \<and> (\<forall>r \<in> set (chain c' @ chainAdd c'). data r = key \<longrightarrow> r \<in> set (chain c @ chainAdd c)))
       \<and> chain (SetPermanent c key val) = chain c
       \<and> chainAdd (SetPermanent c key val) = chainAdd c
       \<and> chainDel (SetPermanent c key val) = chainDel c
       \<and> SetPermanent (SetPermanent c key val) key val = SetPermanent c key val
       \<and> items (SetPermanent c key val) key = Some \<lparr>data = val, expires = 0\<rparr>"
proof -
  let ?c = "SetPermanent c key val"
  from assms have entry: "items ?c key = Some \<lparr>data = val, expires = 0\<rparr>"
    by (simp add: SetPermanent_def)
  then have first: "Get v now ?c key = (val, True)"
    by (simp add: Get_def GetExpires_def HasExpired_def IsZero_def)
  have frame: "chain ?c = chain c" "chainAdd ?c = chainAdd c" "chainDel ?c = chainDel c"
    by (simp_all add: SetPermanent_def)
  have twice: "SetPermanent ?c key val = ?c"
    by (simp add: SetPermanent_def)
  have later: "sys_run acts (ph, ?c) = Some (ph', c') \<and> \<not> list_ex (writes_key key) acts \<longrightarrow>
      Get v now c' key = (val, True)
      \<and> (\<forall>r \<in> set (chain c' @ chainAdd c'). data r = key \<longrightarrow> r \<in> set (chain c @ chainAdd c))"
  proof (intro impI conjI)
    assume "sys_run acts (ph, ?c) = Some (ph', c') \<and> \<not> list_ex (writes_key key) acts"
    then have run: "sys_run acts (ph, ?c) = Some (ph', c')"
      and quiet: "\<not> list_ex (writes_key key) acts"
      by simp_all
    from run quiet have "items c' key = items ?c key"
      by (rule sys_run_items)
    then have "Get v now c' key = Get v now ?c key"
      by (rule Get_cong)
    with first show "Get v now c' key = (val, True)" by simp
    show "\<forall>r \<in> set (chain c' @ chainAdd c'). data r = key \<longrightarrow> r \<in> set (chain c @ chainAdd c)"
    proof (intro ballI impI)
      fix r
      assume "r \<in> set (chain c' @ chainAdd c')" and "data r = key"
      with run quiet have "r \<in> set (chain ?c @ chainAdd ?c)"
        by (rule sys_run_records)
      with frame show "r \<in> set (chain c @ chainAdd c)" by simp
    qed
  qed
  from first later frame twice entry show ?thesis
    by (intro conjI)
qed

theorem SetPermanent_never_expires_witness:
  "Get '''' 100 (SetPermanent (New :: (string, string) Cache) ''a'' ''b'') ''a'' = (''b'', True)
   \<and> Get '''' 100 ((New :: (string, string) Cache)
        \<lparr>items := [''a'' \<mapsto> \<lparr>data = ''b'', expires = 0\<rparr>, ''x'' \<mapsto> \<lparr>data = ''y'', expires = 9\<rparr>],
         chain := [\<lparr>data = ''x'', expires = 9\<rparr>]\<rparr>) ''a''
     = (''b'', True)
   \<and> SetPermanent (SetPermanent (New :: (string, string) Cache) ''a'' ''b'') ''a'' ''b''
     = SetPermanent (New :: (string, string) Cache) ''a'' ''b''
   \<and> items (SetPermanent (New :: (string, string) Cache) ''a'' ''b'') ''a''
     = Some \<lparr>data = ''b'', expires = 0\<rparr>"
proof -
  let ?acts = "[CallSet 0 ''x'' ''y'' 9, Cleaner SelChainAdd] :: (string, string) action list"
  let ?c' = "(New :: (string, string) Cache)
        \<lparr>items := [''a'' \<mapsto> \<lparr>data = ''b'', expires = 0\<rparr>, ''x'' \<mapsto> \<lparr>data = ''y'', expires = 9\<rparr>],
         chain := [\<lparr>data = ''x'', expires = 9\<rparr>]\<rparr>"
  have opened: "\<not> close (New :: (string, string) Cache)"
    by (simp add: New_def)
  have run: "sys_run ?acts (Bootstrapping, SetPermanent (New :: (string, string) Cache) ''a'' ''b'')
      = Some (Armed, ?c') \<and> \<not> list_ex (writes_key ''a'') ?acts"
    by (simp add: New_def SetPermanent_def Set_def Before_def after_send_def send_def
        exit_if_empty_def)
  note fact = SetPermanent_never_expires [OF opened, where v = "''''" and now = 100
      and key = "''a''" and val = "''b''" and acts = ?acts and ph = Bootstrapping and ph' = Armed
      and c' = ?c']
  note first = fact [THEN conjunct1]
  note later = fact [THEN conjunct2, THEN conjunct1, THEN mp, OF run, THEN conjunct1]
  note twice = fact [THEN conjunct2, THEN conjunct2, THEN conjunct2, THEN conjunct2,
      THEN conjunct2, THEN conjunct1]
  note entry = fact [THEN conjunct2, THEN conjunct2, THEN conjunct2, THEN conjunct2,
      THEN conjunct2, THEN conjunct2]
  from first later twice entry show ?thesis
    by (intro conjI)
qed

section \<open>Life of the cleaner\<close>

lemma cleaner_boot_phase:
  "cleaner_boot s c = Some (ph, c') \<Longrightarrow>
     (ph = Terminated \<longleftrightarrow> chain c' = []) \<and> (ph = Armed \<longleftrightarrow> chain c' \<noteq> [])"
  by (cases s) (auto dest!: exit_if_empty_eq split: list.splits if_splits)

lemma cleaner_boot_once:
  "cleaner_boot s c = Some (ph, c') \<Longrightarrow>
     length (chainAdd c) + length (chainDel c) \<le> Suc (length (chainAdd c') + length (chainDel c'))"
  by (cases s) (auto dest!: exit_if_empty_eq split: list.splits if_splits)

lemma cleaner_boot_ready: "\<exists>s r. cleaner_boot s c = Some r"
proof (cases "chainAdd c")
  case Nil
  show ?thesis
  proof (cases "chainDel c")
    case dels: Nil
    with Nil have "cleaner_boot SelDefault c = Some (exit_if_empty c)" by simp
    then show ?thesis by blast
  next
    case (Cons key q)
    then have "cleaner_boot SelChainDel c
        = Some (exit_if_empty (c\<lparr>chainDel := q, chain := chainSplice key (chain c)\<rparr>))"
      by simp
    then show ?thesis by blast
  qed
next
  case (Cons node q)
  then have "cleaner_boot SelChainAdd c
      = Some (exit_if_empty (c\<lparr>chainAdd := q, chain := chainInsert node (chain c)\<rparr>))"
    by simp
  then show ?thesis by blast
qed

lemma cleaner_boot_applies:
  "cleaner_boot s c = Some (ph, c') \<Longrightarrow>
     (s = SelDefault \<and> chainAdd c = [] \<and> chainDel c = [] \<and> c' = c)
     \<or> (s = SelChainAdd \<and> (\<exists>node q. chainAdd c = node # q
           \<and> c' = c\<lparr>chainAdd := q, chain := chainInsert node (chain c)\<rparr>))
     \<or> (s = SelChainDel \<and> (\<exists>key q. chainDel c = key # q
           \<and> c' = c\<lparr>chainDel := q, chain := chainSplice key (chain c)\<rparr>))"
  by (cases s) (auto dest!: exit_if_empty_eq split: list.splits if_splits)

lemma cleaner_boot_insert:
  "chainAdd c = node # q \<Longrightarrow>
     cleaner_boot SelChainAdd c
       = Some (Armed, c\<lparr>chainAdd := q, chain := chainInsert node (chain c)\<rparr>)"
  by (simp add: exit_if_empty_def chainInsert_not_Nil)

lemma cleaner_boot_delete:
  "chainDel c = key # q \<Longrightarrow>
     \<exists>ph. cleaner_boot SelChainDel c
       = Some (ph, c\<lparr>chainDel := q, chain := chainSplice key (chain c)\<rparr>)"
  by (simp add: exit_if_empty_def)

lemma cleaner_iter_phase:
  "cleaner_iter s c = Some (ph, c') \<Longrightarrow>
     (ph = Terminated \<longleftrightarrow> s = SelClose \<or> chain c' = [])
     \<and> (ph = Armed \<longleftrightarrow> s \<noteq> SelClose \<and> chain c' \<noteq> [])"
  by (cases s) (auto dest!: exit_if_empty_eq split: list.splits if_splits prod.splits)

lemma cleaner_iter_insert:
  "cleaner_iter SelChainAdd c = Some (ph, c') \<Longrightarrow> ph = Armed \<and> chain c' \<noteq> []"
  by (auto simp: chainInsert_not_Nil dest!: exit_if_empty_eq split: list.splits)

lemma cleaner_iter_exit:
  "cleaner_iter s c = Some (Terminated, c') \<Longrightarrow> chain c' = [] \<or> (s = SelClose \<and> close c \<and> c' = c)"
  by (cases s) (auto dest!: exit_if_empty_eq split: list.splits if_splits prod.splits)

lemma cleaner_iter_receives_insert:
  "chainAdd c = node # q \<Longrightarrow>
     cleaner_iter SelChainAdd c
       = Some (Armed, c\<lparr>chainAdd := q, chain := chainInsert node (chain c)\<rparr>)"
  by (simp add: exit_if_empty_def chainInsert_not_Nil)

lemma cleaner_iter_receives_delete:
  "chainDel c = key # q \<Longrightarrow>
     \<exists>ph. cleaner_iter SelChainDel c
       = Some (ph, c\<lparr>chainDel := q, chain := chainSplice key (chain c)\<rparr>)"
  by (simp add: exit_if_empty_def)

lemma cleaner_iter_timer:
  "chain c \<noteq> [] \<Longrightarrow>
     \<exists>ph. cleaner_iter (SelTimer clk) c
       = Some (ph, c\<lparr>chain := fst (sweep clk 0 (chain c) (items c)),
                       items := snd (sweep clk 0 (chain c) (items c))\<rparr>)"
  by (simp add: exit_if_empty_def split: prod.split)

subsection \<open>When the cleaner has returned\<close>

lemma call_keeps_close:
  "close c \<Longrightarrow> close (SetPermanent c key value)"
  "close c \<Longrightarrow> close (state_of (Set now c key value exp))"
  "close c \<Longrightarrow> close (state_of (Delete c key))"
  by (simp_all add: SetPermanent_def Set_def Delete_def)

lemma sys_step_phase:
  assumes step: "sys_step a (ph, c) = Some (ph', c')"
    and left: "ph = Terminated \<longrightarrow> chain c = [] \<or> close c"
    and armed: "ph = Armed \<longrightarrow> chain c \<noteq> []"
  shows "(ph' = Terminated \<longrightarrow> chain c' = [] \<or> close c') \<and> (ph' = Armed \<longrightarrow> chain c' \<noteq> [])"
proof (cases a)
  case (CallSetPermanent key val)
  with step have "ph' = ph" "chain c' = chain c" "close c \<longrightarrow> close c'"
    by (auto simp: SetPermanent_chain call_keeps_close)
  with left armed show ?thesis by auto
next
  case (CallSet now key val exp)
  with step have "ph' = ph" "chain c' = chain c" "close c \<longrightarrow> close c'"
    by (auto simp: Set_chain call_keeps_close)
  with left armed show ?thesis by auto
next
  case (CallDelete key)
  with step have "ph' = ph" "chain c' = chain c" "close c \<longrightarrow> close c'"
    by (auto simp: Delete_chain call_keeps_close)
  with left armed show ?thesis by auto
next
  case CallClose
  with step have "ph' = ph" "chain c' = chain c" "close c'"
    by (auto simp: Close_def split: if_splits)
  with left armed show ?thesis by auto
next
  case (Cleaner s)
  show ?thesis
  proof (cases ph)
    case Bootstrapping
    with step Cleaner have "cleaner_boot s c = Some (ph', c')" by simp
    then show ?thesis
      using cleaner_boot_phase by blast
  next
    case Armed
    with step Cleaner have iter: "cleaner_iter s c = Some (ph', c')" by simp
    then have "ph' = Armed \<longrightarrow> chain c' \<noteq> []"
      using cleaner_iter_phase by blast
    moreover from iter have "ph' = Terminated \<longrightarrow> chain c' = [] \<or> close c'"
      using cleaner_iter_exit by blast
    ultimately show ?thesis by simp
  next
    case Terminated
    with step Cleaner show ?thesis by simp
  qed
qed

lemma sys_run_phase:
  "sys_run acts (ph, c) = Some (ph', c') \<Longrightarrow>
     (ph = Terminated \<longrightarrow> chain c = [] \<or> close c) \<Longrightarrow> (ph = Armed \<longrightarrow> chain c \<noteq> []) \<Longrightarrow>
     (ph' = Terminated \<longrightarrow> chain c' = [] \<or> close c') \<and> (ph' = Armed \<longrightarrow> chain c' \<noteq> [])"
proof (induction acts arbitrary: ph c)
  case Nil
  then show ?case by simp
next
  case (Cons a acts)
  from Cons.prems(1) obtain ph1 c1 where step: "sys_step a (ph, c) = Some (ph1, c1)"
    and run: "sys_run acts (ph1, c1) = Some (ph', c')"
    by (auto split: option.splits)
  from step Cons.prems(2,3)
  have "(ph1 = Terminated \<longrightarrow> chain c1 = [] \<or> close c1) \<and> (ph1 = Armed \<longrightarrow> chain c1 \<noteq> [])"
    by (rule sys_step_phase)
  with Cons.IH [OF run] show ?case by blast
qed

text \<open>
  C5. The cleaner returns exactly when the chain is empty or it has received the
  shutdown signal.

  At the start its select never blocks. A pending insert or delete can be
  received, the default case can be taken only when neither channel holds a
  value, and whichever case is taken does what it says: nothing, or exactly the
  one insert or splice at the head of its channel. The goroutine then returns if
  and only if the chain is empty.

  In the loop, the case of \<open>close\<close> can be taken if and only if the channel has
  been closed, and then the cleaner returns with the cache as it is. A pending
  insert is received and leaves the cleaner armed with a non-empty chain; a
  pending delete is received and spliced; the timer case sweeps. A pass returns
  if and only if it took the case of \<open>close\<close> or left the chain empty, so a pass
  that returns with records left in the chain has seen the channel closed.

  Over any run of calls and cleaner steps that starts with the cleaner's start:
  whenever the cleaner has returned, the chain is empty or the cache is closed,
  and whenever it is armed the chain is not empty. Once it has returned, whatever
  calls follow, it takes no further step and the chain stays as it was left.
\<close>

theorem cleaner_lifecycle:
  "(\<exists>s0 r. cleaner_boot s0 c = Some r)
   \<and> (cleaner_boot s c = Some (ph, c') \<longrightarrow>
        (ph = Terminated \<longleftrightarrow> chain c' = []) \<and> (ph = Armed \<longleftrightarrow> chain c' \<noteq> [])
        \<and> length (chainAdd c) + length (chainDel c)
            \<le> Suc (length (chainAdd c') + length (chainDel c')))
   \<and> (cleaner_iter s c = Some (ph, c') \<longrightarrow>
        (ph = Terminated \<longleftrightarrow> s = SelClose \<or> chain c' = [])
        \<and> (ph = Armed \<longleftrightarrow> s \<noteq> SelClose \<and> chain c' \<noteq> []))
   \<and> (cleaner_iter SelChainAdd c = Some (ph, c') \<longrightarrow> ph = Armed \<and> chain c' \<noteq> [])
   \<and> (sys_run acts (Terminated, c) = Some (ph, c') \<longrightarrow>
        ph = Terminated \<and> chain c' = chain c \<and> Cleaner s \<notin> set acts)
   \<and> (cleaner_boot s c = Some (ph, c') \<longrightarrow>
        (s = SelDefault \<and> chainAdd c = [] \<and> chainDel c = [] \<and> c' = c)
        \<or> (s = SelChainAdd \<and> (\<exists>node q. chainAdd c = node # q
              \<and> c' = c\<lparr>chainAdd := q, chain := chainInsert node (chain c)\<rparr>))
        \<or> (s = SelChainDel \<and> (\<exists>key q. chainDel c = key # q
              \<and> c' = c\<lparr>chainDel := q, chain := chainSplice key (chain c)\<rparr>)))
   \<and> (chainAdd c = node # q \<longrightarrow>
        cleaner_boot SelChainAdd c
          = Some (Armed, c\<lparr>chainAdd := q, chain := chainInsert node (chain c)\<rparr>)
        \<and> cleaner_iter SelChainAdd c
          = Some (Armed, c\<lparr>chainAdd := q, chain := chainInsert node (chain c)\<rparr>))
   \<and> (chainDel c = key # dq \<longrightarrow>
        (\<exists>ph0. cleaner_boot SelChainDel c
          = Some (ph0, c\<lparr>chainDel := dq, chain := chainSplice key (chain c)\<rparr>))
        \<and> (\<exists>ph0. cleaner_iter SelChainDel c
          = Some (ph0, c\<lparr>chainDel := dq, chain := chainSplice key (chain c)\<rparr>)))
   \<and> (chain c \<noteq> [] \<longrightarrow>
        (\<exists>ph0. cleaner_iter (SelTimer clk) c
          = Some (ph0, c\<lparr>chain := fst (sweep clk 0 (chain c) (items c)),
                           items := snd (sweep clk 0 (chain c) (items c))\<rparr>)))
   \<and> (close c \<longrightarrow> cleaner_iter SelClose c = Some (Terminated, c))
   \<and> (\<not> close c \<longrightarrow> cleaner_iter SelClose c = None)
   \<and> (cleaner_iter s c = Some (Terminated, c') \<longrightarrow>
        chain c' = [] \<or> (s = SelClose \<and> close c \<and> c' = c))
   \<and> (sys_run acts (Bootstrapping, c) = Some (ph, c') \<longrightarrow>
        (ph = Terminated \<longrightarrow> chain c' = [] \<or> close c') \<and> (ph = Armed \<longrightarrow> chain c' \<noteq> []))"
proof -
  have ready: "\<exists>s0 r. cleaner_boot s0 c = Some r"
    by (rule cleaner_boot_ready)
  have boot: "cleaner_boot s c = Some (ph, c') \<longrightarrow>
      (ph = Terminated \<longleftrightarrow> chain c' = []) \<and> (ph = Armed \<longleftrightarrow> chain c' \<noteq> [])
      \<and> length (chainAdd c) + length (chainDel c)
          \<le> Suc (length (chainAdd c') + length (chainDel c'))"
    using cleaner_boot_phase [of s c ph c'] cleaner_boot_once [of s c ph c'] by blast
  have pass: "cleaner_iter s c = Some (ph, c') \<longrightarrow>
      (ph = Terminated \<longleftrightarrow> s = SelClose \<or> chain c' = [])
      \<and> (ph = Armed \<longleftrightarrow> s \<noteq> SelClose \<and> chain c' \<noteq> [])"
    using cleaner_iter_phase [of s c ph c'] by blast
  have insert: "cleaner_iter SelChainAdd c = Some (ph, c') \<longrightarrow> ph = Armed \<and> chain c' \<noteq> []"
    using cleaner_iter_insert [of c ph c'] by blast
  have gone: "sys_run acts (Terminated, c) = Some (ph, c') \<longrightarrow>
      ph = Terminated \<and> chain c' = chain c \<and> Cleaner s \<notin> set acts"
    using sys_run_Terminated [of acts c ph c'] sys_run_Terminated_calls [of acts c ph c' s]
    by blast
  have applies: "cleaner_boot s c = Some (ph, c') \<longrightarrow>
      (s = SelDefault \<and> chainAdd c = [] \<and> chainDel c = [] \<and> c' = c)
      \<or> (s = SelChainAdd \<and> (\<exists>node q. chainAdd c = node # q
            \<and> c' = c\<lparr>chainAdd := q, chain := chainInsert node (chain c)\<rparr>))
      \<or> (s = SelChainDel \<and> (\<exists>key q. chainDel c = key # q
            \<and> c' = c\<lparr>chainDel := q, chain := chainSplice key (chain c)\<rparr>))"
    using cleaner_boot_applies [of s c ph c'] by (rule impI)
  have adds: "chainAdd c = node # q \<longrightarrow>
      cleaner_boot SelChainAdd c
        = Some (Armed, c\<lparr>chainAdd := q, chain := chainInsert node (chain c)\<rparr>)
      \<and> cleaner_iter SelChainAdd c
        = Some (Armed, c\<lparr>chainAdd := q, chain := chainInsert node (chain c)\<rparr>)"
    using cleaner_boot_insert [of c node q] cleaner_iter_receives_insert [of c node q]
    by (intro impI conjI)
  have dels: "chainDel c = key # dq \<longrightarrow>
      (\<exists>ph0. cleaner_boot SelChainDel c
        = Some (ph0, c\<lparr>chainDel := dq, chain := chainSplice key (chain c)\<rparr>))
      \<and> (\<exists>ph0. cleaner_iter SelChainDel c
        = Some (ph0, c\<lparr>chainDel := dq, chain := chainSplice key (chain c)\<rparr>))"
    using cleaner_boot_delete [of c key dq] cleaner_iter_receives_delete [of c key dq]
    by (intro impI conjI)
  have timer: "chain c \<noteq> [] \<longrightarrow>
      (\<exists>ph0. cleaner_iter (SelTimer clk) c
        = Some (ph0, c\<lparr>chain := fst (sweep clk 0 (chain c) (items c)),
                         items := snd (sweep clk 0 (chain c) (items c))\<rparr>))"
    using cleaner_iter_timer [of c clk] by (rule impI)
  have closed: "close c \<longrightarrow> cleaner_iter SelClose c = Some (Terminated, c)"
    by simp
  have opened: "\<not> close c \<longrightarrow> cleaner_iter SelClose c = None"
    by simp
  have exits: "cleaner_iter s c = Some (Terminated, c') \<longrightarrow>
      chain c' = [] \<or> (s = SelClose \<and> close c \<and> c' = c)"
    using cleaner_iter_exit [of s c c'] by (rule impI)
  have always: "sys_run acts (Bootstrapping, c) = Some (ph, c') \<longrightarrow>
      (ph = Terminated \<longrightarrow> chain c' = [] \<or> close c') \<and> (ph = Armed \<longrightarrow> chain c' \<noteq> [])"
    using sys_run_phase [of acts Bootstrapping c ph c'] by simp
  from ready boot pass insert gone applies adds dels timer closed opened exits always
  show ?thesis
    by (intro conjI)
qed

theorem cleaner_lifecycle_witness:
  "cleaner_boot SelDefault (New :: (string, string) Cache) = Some (Terminated, New)
   \<and> chain (New :: (string, string) Cache) = []
   \<and> cleaner_boot SelChainAdd ((New :: (string, string) Cache)
        \<lparr>chainAdd := [\<lparr>data = ''a'', expires = 5\<rparr>]\<rparr>)
       = Some (Armed, (New :: (string, string) Cache)
           \<lparr>chainAdd := [], chain := chainInsert \<lparr>data = ''a'', expires = 5\<rparr> []\<rparr>)
   \<and> cleaner_boot SelDefault ((New :: (string, string) Cache)
        \<lparr>chainAdd := [\<lparr>data = ''a'', expires = 5\<rparr>]\<rparr>) = None
   \<and> cleaner_iter SelClose ((New :: (string, string) Cache)
        \<lparr>chain := [\<lparr>data = ''a'', expires = 5\<rparr>], close := True\<rparr>)
       = Some (Terminated, (New :: (string, string) Cache)
           \<lparr>chain := [\<lparr>data = ''a'', expires = 5\<rparr>], close := True\<rparr>)
   \<and> cleaner_iter SelClose ((New :: (string, string) Cache)
        \<lparr>chain := [\<lparr>data = ''a'', expires = 5\<rparr>]\<rparr>) = None
   \<and> cleaner_iter SelChainDel ((New :: (string, string) Cache)
        \<lparr>chain := [\<lparr>data = ''a'', expires = 5\<rparr>], chainDel := [''a'']\<rparr>)
       = Some (Terminated, New)
   \<and> cleaner_iter (SelTimer (\<lambda>_. 6)) ((New :: (string, string) Cache)
        \<lparr>chain := [\<lparr>data = ''a'', expires = 5\<rparr>]\<rparr>)
       = Some (Terminated, New)
   \<and> cleaner_iter SelChainAdd ((New :: (string, string) Cache)
        \<lparr>chain := [\<lparr>data = ''a'', expires = 5\<rparr>], chainAdd := [\<lparr>data = ''b'', expires = 7\<rparr>]\<rparr>)
       = Some (Armed, (New :: (string, string) Cache)
           \<lparr>chain := [\<lparr>data = ''a'', expires = 5\<rparr>, \<lparr>data = ''b'', expires = 7\<rparr>]\<rparr>)
   \<and> chain ((New :: (string, string) Cache)
        \<lparr>items := [''a'' \<mapsto> \<lparr>data = ''b'', expires = 5\<rparr>],
         chainAdd := [\<lparr>data = ''a'', expires = 5\<rparr>]\<rparr>) = chain (New :: (string, string) Cache)
   \<and> (chain ((New :: (string, string) Cache)
        \<lparr>items := [''a'' \<mapsto> \<lparr>data = ''b'', expires = 5\<rparr>],
         chain := [\<lparr>data = ''a'', expires = 5\<rparr>], close := True\<rparr>) = []
      \<or> close ((New :: (string, string) Cache)
        \<lparr>items := [''a'' \<mapsto> \<lparr>data = ''b'', expires = 5\<rparr>],
         chain := [\<lparr>data = ''a'', expires = 5\<rparr>], close := True\<rparr>))"
proof -
  let ?new = "New :: (string, string) Cache"
  let ?r = "\<lparr>data = ''a'', expires = 5 :: time\<rparr>"
  let ?pending = "?new\<lparr>chainAdd := [?r]\<rparr>"
  let ?shut = "?new\<lparr>chain := [?r], close := True\<rparr>"
  let ?del = "?new\<lparr>chain := [?r], chainDel := [''a'']\<rparr>"
  let ?due = "?new\<lparr>chain := [?r]\<rparr>"
  let ?add = "?new\<lparr>chain := [?r], chainAdd := [\<lparr>data = ''b'', expires = 7\<rparr>]\<rparr>"
  let ?added = "?new\<lparr>chain := [?r, \<lparr>data = ''b'', expires = 7\<rparr>]\<rparr>"
  let ?acts = "[CallSet 0 ''a'' ''b'' 5] :: (string, string) action list"
  let ?late = "?new\<lparr>items := [''a'' \<mapsto> \<lparr>data = ''b'', expires = 5\<rparr>], chainAdd := [?r]\<rparr>"
  let ?life = "[CallSet 0 ''a'' ''b'' 5, Cleaner SelChainAdd, CallClose, Cleaner SelClose]
      :: (string, string) action list"
  let ?end = "?new\<lparr>items := [''a'' \<mapsto> \<lparr>data = ''b'', expires = 5\<rparr>], chain := [?r],
      close := True\<rparr>"
  have boot: "cleaner_boot SelDefault ?new = Some (Terminated, ?new)"
    by (simp add: New_def exit_if_empty_def)
  have queued: "chainAdd ?pending = [?r]"
    by (simp add: New_def)
  have no_default: "cleaner_boot SelDefault ?pending = None"
    by (simp add: New_def)
  have shut: "close ?shut"
    by (simp add: New_def)
  have not_shut: "\<not> close ?due"
    by (simp add: New_def)
  have del: "cleaner_iter SelChainDel ?del = Some (Terminated, ?new)"
    by (simp add: New_def exit_if_empty_def)
  have due: "cleaner_iter (SelTimer (\<lambda>_. 6)) ?due = Some (Terminated, ?new)"
    by (simp add: New_def exit_if_empty_def HasExpired_def IsZero_def Before_def
        CompareAndDelete_def)
  have add: "cleaner_iter SelChainAdd ?add = Some (Armed, ?added)"
    by (simp add: New_def exit_if_empty_def)
  have run: "sys_run ?acts (Terminated, ?new) = Some (Terminated, ?late)"
    by (simp add: New_def Set_def Before_def after_send_def send_def)
  have life: "sys_run ?life (Bootstrapping, ?new) = Some (Terminated, ?end)"
    by (simp add: New_def Set_def Before_def after_send_def send_def exit_if_empty_def
        Close_def)
  note at_boot = cleaner_lifecycle [where c = ?new and s = SelDefault and ph = Terminated
      and c' = ?new and acts = ?acts]
  note at_pending = cleaner_lifecycle [where c = ?pending and node = ?r and q = "[]"]
  note at_shut = cleaner_lifecycle [where c = ?shut]
  note at_due = cleaner_lifecycle [where c = ?due]
  note at_run = cleaner_lifecycle [where c = ?new and s = SelDefault and ph = Terminated
      and c' = ?late and acts = ?acts]
  note at_life = cleaner_lifecycle [where c = ?new and ph = Terminated and c' = ?end
      and acts = ?life]
  from at_boot [THEN conjunct2, THEN conjunct1, THEN mp, OF boot, THEN conjunct1]
  have empty: "chain ?new = []"
    by simp
  from at_pending [THEN conjunct2, THEN conjunct2, THEN conjunct2, THEN conjunct2,
      THEN conjunct2, THEN conjunct2, THEN conjunct1, THEN mp, OF queued, THEN conjunct1]
  have received: "cleaner_boot SelChainAdd ?pending
      = Some (Armed, ?pending\<lparr>chainAdd := [], chain := chainInsert ?r (chain ?pending)\<rparr>)" .
  then have received': "cleaner_boot SelChainAdd ?pending
      = Some (Armed, ?new\<lparr>chainAdd := [], chain := chainInsert ?r []\<rparr>)"
    by (simp add: New_def)
  from at_shut [THEN conjunct2, THEN conjunct2, THEN conjunct2, THEN conjunct2,
      THEN conjunct2, THEN conjunct2, THEN conjunct2, THEN conjunct2, THEN conjunct2,
      THEN conjunct1, THEN mp, OF shut]
  have leaves: "cleaner_iter SelClose ?shut = Some (Terminated, ?shut)" .
  from at_due [THEN conjunct2, THEN conjunct2, THEN conjunct2, THEN conjunct2,
      THEN conjunct2, THEN conjunct2, THEN conjunct2, THEN conjunct2, THEN conjunct2,
      THEN conjunct2, THEN conjunct1, THEN mp, OF not_shut]
  have stays: "cleaner_iter SelClose ?due = None" .
  from at_run [THEN conjunct2, THEN conjunct2, THEN conjunct2, THEN conjunct2,
      THEN conjunct1, THEN mp, OF run]
  have left: "chain ?late = chain ?new"
    by (elim conjE)
  from at_life [THEN conjunct2, THEN conjunct2, THEN conjunct2, THEN conjunct2,
      THEN conjunct2, THEN conjunct2, THEN conjunct2, THEN conjunct2, THEN conjunct2,
      THEN conjunct2, THEN conjunct2, THEN conjunct2, THEN mp, OF life, THEN conjunct1]
  have ended: "chain ?end = [] \<or> close ?end"
    by simp
  from boot empty received' no_default leaves stays del due add left ended show ?thesis
    by (intro conjI)
qed

end
